theory Spec2Isabelle
  imports Main "HOL-Library.Word"
begin

section \<open>The Synthesizer component (src/mysynth/src/Components/Synthesizer.jsx)\<close>

text \<open>
  The component keeps its mutable data in React refs (\<open>activeNotes\<close>, \<open>synth\<close>,
  \<open>mediaRecorder\<close>, \<open>audioChunks\<close>, \<open>audioContext\<close>) and in the \<open>settings\<close> state object.
  The model passes one record of these around explicitly. Of \<open>settings\<close> only the field
  \<open>octave\<close> is read by the functions modelled here; the tone parameters are copied
  unchanged by every spread \<open>{...prevState}\<close> and are left out.

  \<open>synth.current\<close> is either \<open>null\<close> or the Tone.Synth object. The tone engine itself is a
  library; the model keeps, for the object, the list of calls the component has made on
  it, in order.
\<close>

subsection \<open>Data\<close>

datatype effect =
    TriggerAttack string
  | TriggerRelease string
  | Connect nat

datatype error = TypeError | LibraryError

datatype recorderState = Inactive | Recording

text \<open>
  \<open>settings.octave\<close> is a JavaScript Number, an IEEE double. It is 4 when the component
  mounts, and its only assignment is the \<open>+ 1\<close> or \<open>- 1\<close> of \<open>handleOctaveChange\<close> (no
  input of the form is named \<open>octave\<close>, so \<open>handleSettingChange\<close> never writes it). Its
  value is therefore always an integer from \<open>-2^53\<close> to \<open>2^53\<close>: up to these bounds the
  sums are exact, while \<open>2^53 + 1\<close> is not a double and rounds back to \<open>2^53\<close> (ties to
  even), and likewise \<open>-2^53 - 1\<close> rounds to \<open>-2^53\<close>. The type below holds exactly these
  values.
\<close>

typedef octaveNumber = "{n :: int. - (2 ^ 53) \<le> n \<and> n \<le> 2 ^ 53}"
  by (rule exI [of _ 0]) simp

setup_lifting type_definition_octaveNumber

lift_definition numberOf :: "octaveNumber \<Rightarrow> int" is "\<lambda>n. n" .

lift_definition four :: octaveNumber is 4
  by simp

lift_definition maxOctave :: octaveNumber is "2 ^ 53"
  by simp

lift_definition plusOne :: "octaveNumber \<Rightarrow> octaveNumber" is
  "\<lambda>n. if n = 2 ^ 53 then 2 ^ 53 else n + 1"
  by auto

lift_definition minusOne :: "octaveNumber \<Rightarrow> octaveNumber" is
  "\<lambda>n. if n = - (2 ^ 53) then - (2 ^ 53) else n - 1"
  by auto

record component =
  octave :: octaveNumber
  audioContext :: bool
  mediaRecorder :: "nat option"
  recorders :: "recorderState list"
  audioChunks :: "8 word list list"
  activeNotes :: "string set"
  synth :: "effect list option"
  saved :: "8 word list list"

subsection \<open>getNoteFromKeyCode\<close>

text \<open>The \<open>switch\<close> on the key code; \<open>null\<close> is \<open>None\<close>.\<close>

definition getNoteFromKeyCode :: "int \<Rightarrow> string option" where
  "getNoteFromKeyCode keyCode =
     (if keyCode = 65 then Some ''C''
      else if keyCode = 83 then Some ''D''
      else if keyCode = 68 then Some ''E''
      else if keyCode = 70 then Some ''F''
      else if keyCode = 71 then Some ''G''
      else if keyCode = 72 then Some ''A''
      else if keyCode = 74 then Some ''B''
      else if keyCode = 75 then Some ''C#''
      else if keyCode = 76 then Some ''D#''
      else if keyCode = 186 then Some ''F#''
      else if keyCode = 222 then Some ''G#''
      else None)"

subsection \<open>getNoteWithOctave\<close>

text \<open>
  The template literal \<open>`${note}${settings.octave}`\<close> appends the string form of the
  octave to the note name. For an integer of magnitude up to \<open>2^53\<close> that string is an
  optional minus sign and the decimal digits (exponent notation only starts at
  \<open>10^21\<close>), so on the values of \<open>octaveNumber\<close> the rendering below is the one of
  JavaScript.
\<close>

text \<open>Decimal digits of a natural number, and of an integer with its sign.\<close>

definition digitChar :: "nat \<Rightarrow> char" where
  "digitChar d = char_of (48 + d)"

function decimalOfNat :: "nat \<Rightarrow> string" where
  "decimalOfNat n =
     (if n < 10 then [digitChar n] else decimalOfNat (n div 10) @ [digitChar (n mod 10)])"
  by pat_completeness auto
termination
  by (relation "measure id") auto

declare decimalOfNat.simps [simp del]

definition decimalOfInt :: "int \<Rightarrow> string" where
  "decimalOfInt i = (if i < 0 then CHR ''-'' # decimalOfNat (nat (- i)) else decimalOfNat (nat i))"

definition numberToString :: "octaveNumber \<Rightarrow> string" where
  "numberToString x = decimalOfInt (numberOf x)"

definition getNoteWithOctave :: "component \<Rightarrow> string \<Rightarrow> string" where
  "getNoteWithOctave s note = note @ numberToString (octave s)"

subsection \<open>Hardware key handlers\<close>

text \<open>
  In \<open>note && synth.current && ...\<close> the value \<open>null\<close> and the empty string are falsy,
  every other string is truthy.
\<close>

definition truthy :: "string option \<Rightarrow> bool" where
  "truthy note = (case note of None \<Rightarrow> False | Some n \<Rightarrow> n \<noteq> [])"

definition handleKeyDown :: "int \<Rightarrow> component \<Rightarrow> component" where
  "handleKeyDown keyCode s =
     (let note = getNoteFromKeyCode keyCode in
      case synth s of
        None \<Rightarrow> s
      | Some calls \<Rightarrow>
          if truthy note \<and> the note \<notin> activeNotes s
          then s\<lparr>activeNotes := insert (the note) (activeNotes s),
                 synth := Some (calls @ [TriggerAttack (getNoteWithOctave s (the note))])\<rparr>
          else s)"

definition handleKeyUp :: "int \<Rightarrow> component \<Rightarrow> component" where
  "handleKeyUp keyCode s =
     (let note = getNoteFromKeyCode keyCode in
      case synth s of
        None \<Rightarrow> s
      | Some calls \<Rightarrow>
          if truthy note \<and> the note \<in> activeNotes s
          then s\<lparr>activeNotes := activeNotes s - {the note},
                 synth := Some (calls @ [TriggerRelease (getNoteWithOctave s (the note))])\<rparr>
          else s)"

subsection \<open>On-screen key buttons\<close>

definition onMouseDown :: "string \<Rightarrow> component \<Rightarrow> component" where
  "onMouseDown note s =
     (case synth s of
        None \<Rightarrow> s
      | Some calls \<Rightarrow> s\<lparr>synth := Some (calls @ [TriggerAttack (getNoteWithOctave s note)])\<rparr>)"

definition onMouseUp :: "string \<Rightarrow> component \<Rightarrow> component" where
  "onMouseUp note s =
     (case synth s of
        None \<Rightarrow> s
      | Some calls \<Rightarrow> s\<lparr>synth := Some (calls @ [TriggerRelease (getNoteWithOctave s note)])\<rparr>)"

definition onTouchStart :: "string \<Rightarrow> component \<Rightarrow> component" where
  "onTouchStart note s =
     (case synth s of
        None \<Rightarrow> s
      | Some calls \<Rightarrow> s\<lparr>synth := Some (calls @ [TriggerAttack (getNoteWithOctave s note)])\<rparr>)"

definition onTouchEnd :: "string \<Rightarrow> component \<Rightarrow> component" where
  "onTouchEnd note s =
     (case synth s of
        None \<Rightarrow> s
      | Some calls \<Rightarrow> s\<lparr>synth := Some (calls @ [TriggerRelease (getNoteWithOctave s note)])\<rparr>)"

definition keyboardNotes :: "string list" where
  "keyboardNotes = [''C'', ''D'', ''E'', ''F'', ''G'', ''A'', ''B'']"

subsection \<open>handleOctaveChange\<close>

definition handleOctaveChange :: "string \<Rightarrow> component \<Rightarrow> component" where
  "handleOctaveChange direction s =
     s\<lparr>octave := (if direction = ''up'' then plusOne (octave s) else minusOne (octave s))\<rparr>"

subsection \<open>Recording\<close>

text \<open>
  \<open>MediaRecorder\<close> objects are created by \<open>startRecording\<close> and live on after the ref
  \<open>mediaRecorder.current\<close> is overwritten, so the model keeps every recorder created so
  far in a store (\<open>recorders\<close>, indexed by creation order) and the ref as an index into it.
  A recorder's \<open>start()\<close> makes it \<open>recording\<close>, its \<open>stop()\<close> makes it \<open>inactive\<close>; the
  browser then delivers the \<open>dataavailable\<close> and \<open>stop\<close> events, which run the handlers
  below. \<open>audioContext\<close> is modelled by whether the ref is non-null (the context object
  itself belongs to the browser).
\<close>

definition initializeAudioContext :: "component \<Rightarrow> component" where
  "initializeAudioContext s = (if \<not> audioContext s then s\<lparr>audioContext := True\<rparr> else s)"

text \<open>\<open>synth.current.connect(...)\<close> on a \<open>null\<close> synth is a TypeError.\<close>

definition startRecording :: "component \<Rightarrow> component \<times> error option" where
  "startRecording s =
     (let s1 = initializeAudioContext s;
          streamDestination = length (recorders s1)
      in case synth s1 of
           None \<Rightarrow> (s1, Some TypeError)
         | Some calls \<Rightarrow>
             (s1\<lparr>synth := Some (calls @ [Connect streamDestination]),
                 recorders := recorders s1 @ [Recording],
                 mediaRecorder := Some (length (recorders s1))\<rparr>, None))"

definition ondataavailable :: "8 word list \<Rightarrow> component \<Rightarrow> component" where
  "ondataavailable chunk s = s\<lparr>audioChunks := audioChunks s @ [chunk]\<rparr>"

definition stopRecording :: "component \<Rightarrow> component" where
  "stopRecording s =
     (case mediaRecorder s of
        None \<Rightarrow> s
      | Some r \<Rightarrow> s\<lparr>recorders := (recorders s)[r := Inactive]\<rparr>)"

text \<open>The session is capturing when the current recorder exists and is recording.\<close>

definition capturing :: "component \<Rightarrow> bool" where
  "capturing s =
     (case mediaRecorder s of
        None \<Rightarrow> False
      | Some r \<Rightarrow> r < length (recorders s) \<and> recorders s ! r = Recording)"

subsection \<open>convertToMp3\<close>

text \<open>
  The WAV header parser and the MP3 encoder come from the library \<open>lamejs\<close>, which is not
  part of the repository. They are parameters of the model:
  \<^item> \<open>readHeader\<close> may throw (\<open>Inl\<close>), return \<open>undefined\<close> (\<open>Inr None\<close>) or return a
    header object;
  \<^item> \<open>Mp3Encoder channels sampleRate kbps\<close> is a fresh encoder state;
  \<^item> \<open>encodeBuffer\<close> takes the encoder state and a chunk of samples and returns the new
    state and the bytes produced; \<open>flush\<close> returns the bytes still buffered.
  Each of the four calls may throw instead (\<open>Inl\<close>); \<open>convertToMp3\<close> catches nothing, so
  the exception ends it.

  The header record carries what the buffer's header declares. \<open>convertToMp3\<close> reads the
  fields \<open>dataOffset\<close>, \<open>dataLen\<close> and \<open>sampleRate\<close>; the declared channel count and bit
  depth are there so that properties about them can be stated.
\<close>

record WavHeader =
  dataOffset :: nat
  dataLen :: nat
  channels :: nat
  sampleRate :: nat
  bitsPerSample :: nat

record 'e lamejs =
  readHeader :: "8 word list \<Rightarrow> error + WavHeader option"
  Mp3Encoder :: "nat \<Rightarrow> nat \<Rightarrow> nat \<Rightarrow> error + 'e"
  encodeBuffer :: "'e \<Rightarrow> 16 word list \<Rightarrow> error + 'e \<times> 8 word list"
  flush :: "'e \<Rightarrow> error + 8 word list"

text \<open>
  \<open>samples.subarray(begin, end)\<close> on a typed array: both bounds are clamped to the
  length, so the last chunk of the loop is shorter when fewer elements remain.
\<close>

definition subarray :: "'a list \<Rightarrow> nat \<Rightarrow> nat \<Rightarrow> 'a list" where
  "subarray xs begin end' = take (min end' (length xs) - min begin (length xs)) (drop begin xs)"

definition sampleBlockSize :: nat where
  "sampleBlockSize = 1152"

text \<open>
  The \<open>for\<close> loop of \<open>convertToMp3\<close>, with the encoder state and \<open>mp3Data\<close> threaded
  through. It is polymorphic in the encoder so that it can also be run with an encoder
  that only records what it is given.
\<close>

function encodeLoop ::
  "('e \<Rightarrow> 'a list \<Rightarrow> error + 'e \<times> 'b list) \<Rightarrow> 'a list \<Rightarrow> nat \<Rightarrow> 'e \<Rightarrow> 'b list list
     \<Rightarrow> error + 'e \<times> 'b list list" where
  "encodeLoop encodeBuf samples i enc mp3Data =
     (if i < length samples then
        (let sampleChunk = subarray samples i (i + sampleBlockSize)
         in case encodeBuf enc sampleChunk of
              Inl e \<Rightarrow> Inl e
            | Inr (enc', mp3buf) \<Rightarrow>
                encodeLoop encodeBuf samples (i + sampleBlockSize) enc'
                  (if length mp3buf > 0 then mp3Data @ [mp3buf] else mp3Data))
      else Inr (enc, mp3Data))"
  by pat_completeness auto
termination
  by (relation "measure (\<lambda>(encodeBuf, samples, i, enc, mp3Data). length samples - i)")
     (auto simp: sampleBlockSize_def)

declare encodeLoop.simps [simp del]

text \<open>
  \<open>new Int16Array(wavBuffer, wav.dataOffset, wav.dataLen / 2)\<close>: at its only call site
  (\<open>onstop\<close>) \<open>wavBuffer\<close> is a \<open>Uint8Array\<close>. A typed-array constructor whose first argument
  is itself a typed array copies that array element by element and ignores the other two
  arguments (the quotient \<open>wav.dataLen / 2\<close> among them); only an \<open>ArrayBuffer\<close>
  argument would be viewed at an offset. Every byte of the buffer thus becomes one
  sample. Reading \<open>wav.dataOffset\<close> still requires \<open>wav\<close> to be an object.
\<close>

definition Int16Array :: "8 word list \<Rightarrow> nat \<Rightarrow> nat \<Rightarrow> 16 word list" where
  "Int16Array typedArray byteOffset len = map ucast typedArray"

definition convertToMp3 :: "'e lamejs \<Rightarrow> 8 word list \<Rightarrow> error + 8 word list list" where
  "convertToMp3 lib wavBuffer =
     (case readHeader lib wavBuffer of
        Inl e \<Rightarrow> Inl e
      | Inr None \<Rightarrow> Inl TypeError
      | Inr (Some wav) \<Rightarrow>
          (let samples = Int16Array wavBuffer (dataOffset wav) (dataLen wav div 2)
           in case Mp3Encoder lib 1 (sampleRate wav) 128 of
                Inl e \<Rightarrow> Inl e
              | Inr mp3Encoder \<Rightarrow>
                  (case encodeLoop (encodeBuffer lib) samples 0 mp3Encoder [] of
                     Inl e \<Rightarrow> Inl e
                   | Inr (enc, mp3Data) \<Rightarrow>
                       (case flush lib enc of
                          Inl e \<Rightarrow> Inl e
                        | Inr mp3buf \<Rightarrow>
                            Inr (if length mp3buf > 0 then mp3Data @ [mp3buf] else mp3Data)))))"

text \<open>
  The \<open>onstop\<close> handler: the chunks are joined into one blob and cleared, the blob's bytes
  go to \<open>convertToMp3\<close>, and the frames it returns are joined and handed to \<open>saveAs\<close>. An
  exception in \<open>convertToMp3\<close> rejects the handler's promise after the chunks were
  cleared; nothing is saved then.
\<close>

definition onstop :: "'e lamejs \<Rightarrow> component \<Rightarrow> component \<times> (error + 8 word list list)" where
  "onstop lib s =
     (let audioBlob = concat (audioChunks s);
          s1 = s\<lparr>audioChunks := []\<rparr>
      in case convertToMp3 lib audioBlob of
           Inl e \<Rightarrow> (s1, Inl e)
         | Inr mp3Buffer \<Rightarrow> (s1\<lparr>saved := saved s1 @ [concat mp3Buffer]\<rparr>, Inr mp3Buffer))"

subsection \<open>Auxiliary definitions for stating the properties\<close>

text \<open>
  The chunks the loop hands to \<open>encodeBuffer\<close>, obtained by running the loop itself with
  an encoder whose state is the list of chunks it has received.
\<close>

definition encodeBufferCalls :: "'a list \<Rightarrow> 'a list list" where
  "encodeBufferCalls samples =
     (case encodeLoop (\<lambda>log chunk. Inr (log @ [chunk], [] :: 8 word list)) samples 0 [] [] of
        Inl e \<Rightarrow> []
      | Inr (log, mp3Data) \<Rightarrow> log)"

text \<open>
  Feeding a given list of chunks to an encoder, collecting the non-empty outputs and
  stopping at the first call that throws.
\<close>

fun feed ::
  "('e \<Rightarrow> 'a list \<Rightarrow> error + 'e \<times> 'b list) \<Rightarrow> 'e \<Rightarrow> 'a list list \<Rightarrow> 'b list list
     \<Rightarrow> error + 'e \<times> 'b list list" where
  "feed encodeBuf enc [] mp3Data = Inr (enc, mp3Data)"
| "feed encodeBuf enc (chunk # chunks) mp3Data =
     (case encodeBuf enc chunk of
        Inl e \<Rightarrow> Inl e
      | Inr (enc', mp3buf) \<Rightarrow>
          feed encodeBuf enc' chunks (if length mp3buf > 0 then mp3Data @ [mp3buf] else mp3Data))"

text \<open>An encoder none of whose calls throws.\<close>

definition neverThrows :: "'e lamejs \<Rightarrow> bool" where
  "neverThrows lib =
     ((\<forall>channels rate kbps. \<exists>enc. Mp3Encoder lib channels rate kbps = Inr enc) \<and>
      (\<forall>enc chunk. \<exists>r. encodeBuffer lib enc chunk = Inr r) \<and>
      (\<forall>enc. \<exists>mp3buf. flush lib enc = Inr mp3buf))"

text \<open>
  An encoder that does not swallow its input: a call on a non-empty chunk either yields
  bytes or leaves bytes that the next \<open>flush\<close> yields.
\<close>

definition drainsAtFlush :: "'e lamejs \<Rightarrow> bool" where
  "drainsAtFlush lib =
     (\<forall>enc chunk enc' mp3buf. chunk \<noteq> [] \<and> encodeBuffer lib enc chunk = Inr (enc', mp3buf) \<longrightarrow>
        mp3buf \<noteq> [] \<or> (\<exists>rest. flush lib enc' = Inr rest \<and> rest \<noteq> []))"

definition chunksFrom :: "'a list \<Rightarrow> nat \<Rightarrow> 'a list list" where
  "chunksFrom samples i =
     map (\<lambda>j. take sampleBlockSize (drop (i + j * sampleBlockSize) samples))
       [0 ..< (length samples - i + (sampleBlockSize - 1)) div sampleBlockSize]"

text \<open>
  The component right after mounting: the initial values of the refs and of
  \<open>settings.octave\<close>, with the synth created by the first run of the effect.
\<close>

definition mounted :: component where
  "mounted = \<lparr>octave = four, audioContext = False, mediaRecorder = None, recorders = [],
     audioChunks = [], activeNotes = {}, synth = Some [], saved = []\<rparr>"

text \<open>Little-endian fields of a byte buffer.\<close>

definition le16 :: "8 word list \<Rightarrow> nat \<Rightarrow> nat" where
  "le16 buf i = unat (buf ! i) + 256 * unat (buf ! (i + 1))"

definition le32 :: "8 word list \<Rightarrow> nat \<Rightarrow> nat" where
  "le32 buf i = le16 buf i + 65536 * le16 buf (i + 2)"

text \<open>
  Modelled from the spec: the header parser of the library \<open>lamejs\<close>
  (\<open>WavHeader.readHeader\<close>) is not under src/. Section 4.5 of the specification says that
  it recovers the sample format, the byte offset of the sample data and the declared data
  length, and fails when the header is truncated, carries a wrong format tag, or declares
  more data than the buffer holds. The layout is the canonical 44-byte RIFF/WAVE header:
  \<open>RIFF\<close>, size, \<open>WAVE\<close>, \<open>fmt\<close> chunk of 16 bytes (format tag 1 for PCM, channels, sample
  rate, byte rate, block align, bits per sample), \<open>data\<close>, data length.
\<close>

definition specReadHeader :: "8 word list \<Rightarrow> error + WavHeader option" where
  "specReadHeader buf =
     (if length buf < 44 then Inl LibraryError
      else if take 4 buf \<noteq> [0x52, 0x49, 0x46, 0x46] then Inl LibraryError
      else if take 4 (drop 8 buf) \<noteq> [0x57, 0x41, 0x56, 0x45] then Inl LibraryError
      else if take 4 (drop 12 buf) \<noteq> [0x66, 0x6D, 0x74, 0x20] then Inl LibraryError
      else if le32 buf 16 \<noteq> 16 \<or> le16 buf 20 \<noteq> 1 then Inl LibraryError
      else if take 4 (drop 36 buf) \<noteq> [0x64, 0x61, 0x74, 0x61] then Inl LibraryError
      else if length buf < 44 + le32 buf 40 then Inl LibraryError
      else Inr (Some \<lparr>dataOffset = 44, dataLen = le32 buf 40, channels = le16 buf 22,
                      sampleRate = le32 buf 24, bitsPerSample = le16 buf 34\<rparr>))"

text \<open>
  Modelled from the spec: the encoder of \<open>lamejs\<close> (\<open>Mp3Encoder\<close>, \<open>encodeBuffer\<close>, \<open>flush\<close>)
  is not under src/. Section 4.5 says that the block encoder may yield zero output bytes
  while its lookahead fills, and that \<open>flush\<close> drains the remaining buffered state. This is
  the plainest encoder of that description: its state is the number of buffered samples,
  a block yields nothing, and \<open>flush\<close> yields one byte per buffered sample. Together with
  \<open>specReadHeader\<close> it is used to evaluate the model at concrete buffers; the general
  theorems hold for every library.
\<close>

definition exampleLib :: "nat lamejs" where
  "exampleLib =
     \<lparr>readHeader = specReadHeader,
      Mp3Encoder = (\<lambda>channels rate kbps. Inr 0),
      encodeBuffer = (\<lambda>buffered chunk. Inr (buffered + length chunk, [])),
      flush = (\<lambda>buffered. Inr (replicate buffered 0))\<rparr>"

text \<open>
  One second of 16-bit mono silence at 44100 Hz as a WAV buffer: the 44-byte header
  (data length 88200, RIFF size 88236, byte rate 88200, block align 2) and 88200 zero
  bytes.
\<close>

definition silenceHeader :: "8 word list" where
  "silenceHeader =
     [0x52, 0x49, 0x46, 0x46,  0xAC, 0x58, 0x01, 0x00,  0x57, 0x41, 0x56, 0x45,
      0x66, 0x6D, 0x74, 0x20,  0x10, 0x00, 0x00, 0x00,  0x01, 0x00,  0x01, 0x00,
      0x44, 0xAC, 0x00, 0x00,  0x88, 0x58, 0x01, 0x00,  0x02, 0x00,  0x10, 0x00,
      0x64, 0x61, 0x74, 0x61,  0x88, 0x58, 0x01, 0x00]"

definition silenceWav :: "8 word list" where
  "silenceWav = silenceHeader @ replicate 88200 0"

text \<open>
  A WAV buffer whose header declares two channels and 8-bit samples at 44100 Hz, with two
  bytes of data (RIFF size 38, byte rate 88200, block align 2).
\<close>

definition stereo8Wav :: "8 word list" where
  "stereo8Wav =
     [0x52, 0x49, 0x46, 0x46,  0x26, 0x00, 0x00, 0x00,  0x57, 0x41, 0x56, 0x45,
      0x66, 0x6D, 0x74, 0x20,  0x10, 0x00, 0x00, 0x00,  0x01, 0x00,  0x02, 0x00,
      0x44, 0xAC, 0x00, 0x00,  0x88, 0x58, 0x01, 0x00,  0x02, 0x00,  0x08, 0x00,
      0x64, 0x61, 0x74, 0x61,  0x02, 0x00, 0x00, 0x00,
      0x80, 0x80]"

section \<open>Auxiliary lemmas\<close>

lemma ceil_div_step:
  fixes b d :: nat
  assumes "0 < b" "0 < d"
  shows "(d + (b - 1)) div b = Suc ((d - b + (b - 1)) div b)"
proof (cases "b \<le> d")
  case True
  then obtain e where d: "d = e + b" by (metis le_add_diff_inverse2)
  have "e + b + (b - 1) = e + (b - 1) + b" by simp
  then have "(e + b + (b - 1)) div b = Suc ((e + (b - 1)) div b)"
    using assms(1) by (simp only: div_add_self2)
  then show ?thesis by (simp add: d)
next
  case False
  have "(d + (b - 1)) div b = 1"
    by (rule div_nat_eqI) (use assms False in auto)
  moreover have "(d - b + (b - 1)) div b = 0"
    using False assms by simp
  ultimately show ?thesis by simp
qed

lemma ceil_div_covers:
  fixes b n :: nat
  assumes "0 < b"
  shows "n \<le> (n + (b - 1)) div b * b"
proof -
  have "(n + (b - 1)) div b * b + (n + (b - 1)) mod b = n + (b - 1)"
    by simp
  moreover have "(n + (b - 1)) mod b < b"
    using assms by simp
  ultimately show ?thesis by linarith
qed

lemma ceil_div_partial:
  fixes b n :: nat
  assumes "n mod b \<noteq> 0" "0 < b"
  shows "(n + (b - 1)) div b = Suc (n div b)"
proof (rule div_nat_eqI)
  have n: "n = n div b * b + n mod b" by simp
  have r: "0 < n mod b" "n mod b < b" using assms by auto
  show "b * Suc (n div b) \<le> n + (b - 1)"
  proof -
    have "b * Suc (n div b) = n div b * b + b" by (simp add: mult.commute)
    also have "\<dots> \<le> n div b * b + n mod b + (b - 1)" using r by linarith
    also have "\<dots> = n + (b - 1)" by simp
    finally show ?thesis .
  qed
  show "n + (b - 1) < b * Suc (Suc (n div b))"
  proof -
    have "n + (b - 1) = n div b * b + n mod b + (b - 1)" by simp
    also have "\<dots> < n div b * b + b + b" using r by linarith
    also have "\<dots> = b * Suc (Suc (n div b))" by (simp add: mult.commute)
    finally show ?thesis .
  qed
qed

lemma subarray_block: "i < length xs \<Longrightarrow> subarray xs i (i + sampleBlockSize) = take sampleBlockSize (drop i xs)"
  by (auto simp: subarray_def min_def)

lemma chunksFrom_done: "\<not> i < length samples \<Longrightarrow> chunksFrom samples i = []"
  by (simp add: chunksFrom_def sampleBlockSize_def)

lemma chunksFrom_step:
  assumes "i < length samples"
  shows "chunksFrom samples i =
           take sampleBlockSize (drop i samples) # chunksFrom samples (i + sampleBlockSize)"
proof -
  have b: "0 < sampleBlockSize" by (simp add: sampleBlockSize_def)
  have d: "0 < length samples - i" using assms by simp
  have n: "(length samples - i + (sampleBlockSize - 1)) div sampleBlockSize
            = Suc ((length samples - (i + sampleBlockSize) + (sampleBlockSize - 1)) div sampleBlockSize)"
    using ceil_div_step[OF b d] by (simp only: diff_diff_left)
  have f: "\<And>j. i + Suc j * sampleBlockSize = i + sampleBlockSize + j * sampleBlockSize"
    by simp
  show ?thesis
    unfolding chunksFrom_def n map_upt_Suc f by simp
qed

lemma encodeLoop_feed:
  "encodeLoop encodeBuf samples i enc mp3Data = feed encodeBuf enc (chunksFrom samples i) mp3Data"
proof (induction encodeBuf samples i enc mp3Data rule: encodeLoop.induct)
  case (1 encodeBuf samples i enc mp3Data)
  show ?case
  proof (cases "i < length samples")
    case False
    then show ?thesis by (subst encodeLoop.simps) (simp add: chunksFrom_done)
  next
    case True
    have s: "subarray samples i (i + sampleBlockSize) = take sampleBlockSize (drop i samples)"
      using True by (rule subarray_block)
    show ?thesis
    proof (cases "encodeBuf enc (subarray samples i (i + sampleBlockSize))")
      case (Inl e)
      then show ?thesis
        using True s by (subst encodeLoop.simps) (simp add: chunksFrom_step[OF True])
    next
      case (Inr r)
      obtain enc' mp3buf where r: "r = (enc', mp3buf)" by (cases r)
      have "encodeLoop encodeBuf samples i enc mp3Data =
              encodeLoop encodeBuf samples (i + sampleBlockSize) enc'
                (if length mp3buf > 0 then mp3Data @ [mp3buf] else mp3Data)"
        using True Inr r by (subst encodeLoop.simps) simp
      also have "\<dots> = feed encodeBuf enc' (chunksFrom samples (i + sampleBlockSize))
                (if length mp3buf > 0 then mp3Data @ [mp3buf] else mp3Data)"
        by (rule "1.IH"[OF True refl Inr r[symmetric]])
      also have "\<dots> = feed encodeBuf enc (chunksFrom samples i) mp3Data"
        using Inr r s by (simp add: chunksFrom_step[OF True])
      finally show ?thesis .
    qed
  qed
qed

lemma feed_log:
  "feed (\<lambda>log chunk. Inr (log @ [chunk], [])) log chunks mp3Data = Inr (log @ chunks, mp3Data)"
  by (induction chunks arbitrary: log) auto

lemma encodeBufferCalls_chunks: "encodeBufferCalls samples = chunksFrom samples 0"
  by (simp add: encodeBufferCalls_def encodeLoop_feed feed_log)

lemma concat_chunks:
  "concat (map (\<lambda>j. take b (drop (j * b) xs)) [0 ..< n]) = take (n * b) xs"
proof (induction n)
  case 0
  show ?case by simp
next
  case (Suc n)
  have "take (n * b) xs @ take b (drop (n * b) xs) = take (n * b + b) xs"
    by (simp add: take_add)
  with Suc show ?case by (simp add: add.commute)
qed

lemma concat_chunksFrom0: "concat (chunksFrom samples 0) = samples"
proof -
  have "length samples \<le> (length samples + (sampleBlockSize - 1)) div sampleBlockSize * sampleBlockSize"
    by (rule ceil_div_covers) (simp add: sampleBlockSize_def)
  then show ?thesis
    by (simp add: chunksFrom_def concat_chunks)
qed

lemma length_chunksFrom0: "length (chunksFrom samples 0) = (length samples + 1151) div 1152"
  by (simp add: chunksFrom_def sampleBlockSize_def)

lemma nth_chunksFrom0:
  "j < length (chunksFrom samples 0) \<Longrightarrow>
     length (chunksFrom samples 0 ! j) = min 1152 (length samples - 1152 * j)"
  by (simp add: chunksFrom_def sampleBlockSize_def mult.commute)

lemma last_chunksFrom0:
  assumes "length samples mod 1152 \<noteq> 0"
  shows "chunksFrom samples 0 \<noteq> [] \<and> length (last (chunksFrom samples 0)) = length samples mod 1152"
proof -
  let ?cs = "chunksFrom samples 0"
  let ?q = "length samples div 1152"
  have n: "length ?cs = Suc ?q"
    using ceil_div_partial[OF assms] by (simp add: length_chunksFrom0)
  then have ne: "?cs \<noteq> []" by auto
  have "length (last ?cs) = length (?cs ! ?q)"
    using ne n by (simp add: last_conv_nth)
  also have "\<dots> = min 1152 (length samples - 1152 * ?q)"
    using n by (simp add: nth_chunksFrom0)
  also have "length samples - 1152 * ?q = length samples mod 1152"
    by (simp add: minus_mult_div_eq_mod)
  also have "min 1152 (length samples mod 1152) = length samples mod 1152"
    by simp
  finally show ?thesis using ne by simp
qed


lemma ceil_div_index:
  fixes b n j :: nat
  assumes "0 < b" and "j < (n + (b - 1)) div b"
  shows "j * b < n"
proof -
  from assms(2) have "Suc j \<le> (n + (b - 1)) div b" by simp
  then have "Suc j * b \<le> n + (b - 1)"
    using assms(1) by (simp only: less_eq_div_iff_mult_less_eq)
  then have "j * b + b \<le> n + (b - 1)" by (simp add: add.commute)
  with assms(1) show ?thesis by linarith
qed

lemma chunksFrom0_nonempty:
  assumes "c \<in> set (chunksFrom samples 0)"
  shows "c \<noteq> []"
proof -
  from assms obtain j where j: "j < length (chunksFrom samples 0)" and c: "c = chunksFrom samples 0 ! j"
    by (metis in_set_conv_nth)
  have "j < (length samples + (1152 - 1)) div 1152"
    using j by (simp add: length_chunksFrom0)
  then have "j * 1152 < length samples"
    by (rule ceil_div_index[rotated]) simp
  then have "0 < length c"
    using j c by (simp add: nth_chunksFrom0 mult.commute)
  then show ?thesis by auto
qed

lemma feed_append:
  "feed encodeBuf enc (chunks @ [chunk]) mp3Data =
     (case feed encodeBuf enc chunks mp3Data of
        Inl e \<Rightarrow> Inl e
      | Inr (enc1, mp3Data1) \<Rightarrow> feed encodeBuf enc1 [chunk] mp3Data1)"
  by (induction chunks arbitrary: enc mp3Data) (auto split: sum.splits)

lemma feed_total:
  assumes "\<forall>enc chunk. \<exists>r. encodeBuf enc chunk = Inr r"
  shows "\<exists>r. feed encodeBuf enc chunks mp3Data = Inr r"
proof (induction chunks arbitrary: enc mp3Data)
  case Nil
  show ?case by simp
next
  case (Cons chunk chunks)
  from assms obtain enc' mp3buf where "encodeBuf enc chunk = Inr (enc', mp3buf)"
    by (metis surj_pair)
  with Cons show ?case by simp
qed

lemma convertToMp3_feed:
  assumes "readHeader lib wavBuffer = Inr (Some wav)"
  shows "convertToMp3 lib wavBuffer =
           (case Mp3Encoder lib 1 (sampleRate wav) 128 of
              Inl e \<Rightarrow> Inl e
            | Inr mp3Encoder \<Rightarrow>
                (case feed (encodeBuffer lib) mp3Encoder (encodeBufferCalls (map ucast wavBuffer)) [] of
                   Inl e \<Rightarrow> Inl e
                 | Inr (enc, mp3Data) \<Rightarrow>
                     (case flush lib enc of
                        Inl e \<Rightarrow> Inl e
                      | Inr mp3buf \<Rightarrow> Inr (if mp3buf \<noteq> [] then mp3Data @ [mp3buf] else mp3Data))))"
  using assms
  by (auto simp: convertToMp3_def Int16Array_def encodeLoop_feed encodeBufferCalls_chunks
      split: sum.splits prod.splits)

lemma convertToMp3_returns:
  assumes "readHeader lib wavBuffer = Inr (Some wav)" and "neverThrows lib"
  shows "\<exists>frames. convertToMp3 lib wavBuffer = Inr frames"
proof -
  from assms(2) obtain enc0 where e: "Mp3Encoder lib 1 (sampleRate wav) 128 = Inr enc0"
    unfolding neverThrows_def by blast
  from assms(2) have t: "\<forall>enc chunk. \<exists>r. encodeBuffer lib enc chunk = Inr r"
    unfolding neverThrows_def by blast
  obtain enc mp3Data where
    f: "feed (encodeBuffer lib) enc0 (encodeBufferCalls (map ucast wavBuffer)) [] = Inr (enc, mp3Data)"
    using feed_total[OF t] by (metis surj_pair)
  from assms(2) obtain mp3buf where b: "flush lib enc = Inr mp3buf"
    unfolding neverThrows_def by blast
  show ?thesis
    by (simp only: convertToMp3_feed[OF assms(1)] e f b sum.case prod.case) simp
qed

lemma convertToMp3_nonempty:
  assumes h: "readHeader lib wavBuffer = Inr (Some wav)"
    and n: "neverThrows lib" and d: "drainsAtFlush lib" and w: "wavBuffer \<noteq> []"
  shows "\<exists>frames. convertToMp3 lib wavBuffer = Inr frames \<and> frames \<noteq> []"
proof -
  let ?cs = "encodeBufferCalls (map ucast wavBuffer) :: 16 word list list"
  have cc: "concat ?cs = map ucast wavBuffer"
    by (simp add: encodeBufferCalls_chunks concat_chunksFrom0)
  with w have ne: "?cs \<noteq> []" by auto
  then obtain cs c where cs: "?cs = cs @ [c]" by (metis rev_exhaust)
  have "c \<in> set ?cs" by (simp add: cs)
  then have c: "c \<noteq> []"
    using chunksFrom0_nonempty by (simp add: encodeBufferCalls_chunks)
  from n obtain enc0 where e: "Mp3Encoder lib 1 (sampleRate wav) 128 = Inr enc0"
    unfolding neverThrows_def by blast
  from n have t: "\<forall>enc chunk. \<exists>r. encodeBuffer lib enc chunk = Inr r"
    unfolding neverThrows_def by blast
  obtain enc1 mp3Data1 where f1: "feed (encodeBuffer lib) enc0 cs [] = Inr (enc1, mp3Data1)"
    using feed_total[OF t] by (metis surj_pair)
  obtain enc2 mp3buf where l: "encodeBuffer lib enc1 c = Inr (enc2, mp3buf)"
    using t by (metis surj_pair)
  from n obtain rest where r: "flush lib enc2 = Inr rest"
    unfolding neverThrows_def by blast
  have f: "feed (encodeBuffer lib) enc0 ?cs [] =
             Inr (enc2, if mp3buf \<noteq> [] then mp3Data1 @ [mp3buf] else mp3Data1)"
    by (simp add: cs feed_append f1 l)
  have res: "convertToMp3 lib wavBuffer =
               Inr (if rest \<noteq> [] then (if mp3buf \<noteq> [] then mp3Data1 @ [mp3buf] else mp3Data1) @ [rest]
                    else (if mp3buf \<noteq> [] then mp3Data1 @ [mp3buf] else mp3Data1))"
    by (simp only: convertToMp3_feed[OF h] e f r sum.case prod.case)
  from d c l r have "mp3buf \<noteq> [] \<or> rest \<noteq> []"
    unfolding drainsAtFlush_def by fastforce
  then show ?thesis unfolding res by auto
qed

lemma getNoteFromKeyCode_nonempty: "getNoteFromKeyCode k = Some n \<Longrightarrow> n \<noteq> []"
  by (auto simp: getNoteFromKeyCode_def split: if_splits)

lemma getNoteFromKeyCode_truthy: "getNoteFromKeyCode k = Some n \<Longrightarrow> truthy (getNoteFromKeyCode k)"
  by (simp add: truthy_def getNoteFromKeyCode_nonempty)

lemma keyCodes_mapped:
  "{k. getNoteFromKeyCode k \<noteq> None} = {65, 83, 68, 70, 71, 72, 74, 75, 76, 186, 222}"
  by (auto simp: getNoteFromKeyCode_def split: if_splits)

lemma notes_mapped:
  "{n. \<exists>k. getNoteFromKeyCode k = Some n} =
     {''C'', ''D'', ''E'', ''F'', ''G'', ''A'', ''B'', ''C#'', ''D#'', ''F#'', ''G#''}"
proof -
  have "{n. \<exists>k. getNoteFromKeyCode k = Some n}
          = (\<lambda>k. the (getNoteFromKeyCode k)) ` {k. getNoteFromKeyCode k \<noteq> None}"
    by force
  also have "\<dots> = {''C'', ''D'', ''E'', ''F'', ''G'', ''A'', ''B'', ''C#'', ''D#'', ''F#'', ''G#''}"
    unfolding keyCodes_mapped by (simp add: getNoteFromKeyCode_def)
  finally show ?thesis .
qed

lemma digitChar_inj: "a < 10 \<Longrightarrow> b < 10 \<Longrightarrow> digitChar a = digitChar b \<Longrightarrow> a = b"
proof -
  assume a: "a < 10" and b: "b < 10" and e: "digitChar a = digitChar b"
  from e have "(of_char (digitChar a) :: nat) = of_char (digitChar b)" by simp
  then have "(48 + a) mod 256 = (48 + b) mod 256" by (simp add: digitChar_def)
  with a b show "a = b" by simp
qed

lemma digitChar_not_minus: "d < 10 \<Longrightarrow> digitChar d \<noteq> CHR ''-''"
proof
  assume d: "d < 10" and e: "digitChar d = CHR ''-''"
  from e have "(of_char (digitChar d) :: nat) = of_char (CHR ''-'')" by simp
  then have "(48 + d) mod 256 = 45" by (simp add: digitChar_def)
  with d show False by simp
qed

lemma decimalOfNat_nonempty: "decimalOfNat n \<noteq> []"
  by (subst decimalOfNat.simps) simp

lemma decimalOfNat_no_minus: "CHR ''-'' \<notin> set (decimalOfNat n)"
proof (induction n rule: decimalOfNat.induct)
  case (1 n)
  show ?case
  proof (cases "n < 10")
    case True
    then show ?thesis
      using digitChar_not_minus[of n] by (subst decimalOfNat.simps) auto
  next
    case False
    then show ?thesis
      using "1.IH" digitChar_not_minus[of "n mod 10"] by (subst decimalOfNat.simps) auto
  qed
qed

lemma decimalOfNat_inj: "decimalOfNat n = decimalOfNat m \<Longrightarrow> n = m"
proof (induction n arbitrary: m rule: decimalOfNat.induct)
  case (1 n)
  show ?case
  proof (cases "n < 10")
    case True
    then have n1: "decimalOfNat n = [digitChar n]" by (subst decimalOfNat.simps) simp
    show ?thesis
    proof (cases "m < 10")
      case True
      then have "decimalOfNat m = [digitChar m]" by (subst decimalOfNat.simps) simp
      with n1 "1.prems" \<open>n < 10\<close> True show ?thesis by (simp add: digitChar_inj)
    next
      case False
      then have "decimalOfNat m = decimalOfNat (m div 10) @ [digitChar (m mod 10)]"
        by (subst decimalOfNat.simps) simp
      with n1 "1.prems" decimalOfNat_nonempty[of "m div 10"] show ?thesis
        by (cases "decimalOfNat (m div 10)") auto
    qed
  next
    case False
    then have n2: "decimalOfNat n = decimalOfNat (n div 10) @ [digitChar (n mod 10)]"
      by (subst decimalOfNat.simps) simp
    show ?thesis
    proof (cases "m < 10")
      case True
      then have "decimalOfNat m = [digitChar m]" by (subst decimalOfNat.simps) simp
      with n2 "1.prems" decimalOfNat_nonempty[of "n div 10"] show ?thesis
        by (cases "decimalOfNat (n div 10)") auto
    next
      case False
      then have "decimalOfNat m = decimalOfNat (m div 10) @ [digitChar (m mod 10)]"
        by (subst decimalOfNat.simps) simp
      with n2 "1.prems" have e: "decimalOfNat (n div 10) = decimalOfNat (m div 10)"
          "digitChar (n mod 10) = digitChar (m mod 10)"
        by auto
      from "1.IH"[OF \<open>\<not> n < 10\<close> e(1)] have "n div 10 = m div 10" .
      moreover from e(2) have "n mod 10 = m mod 10" by (simp add: digitChar_inj)
      ultimately show ?thesis by (metis div_mult_mod_eq)
    qed
  qed
qed

lemma decimalOfInt_inj: "decimalOfInt i = decimalOfInt j \<Longrightarrow> i = j"
proof -
  assume e: "decimalOfInt i = decimalOfInt j"
  have hd_nat: "\<And>n. hd (decimalOfNat n) \<noteq> CHR ''-''"
    using decimalOfNat_no_minus decimalOfNat_nonempty by (metis hd_in_set)
  show "i = j"
  proof (cases "i < 0")
    case True
    show ?thesis
    proof (cases "j < 0")
      case True
      with \<open>i < 0\<close> e have "decimalOfNat (nat (- i)) = decimalOfNat (nat (- j))"
        by (simp add: decimalOfInt_def)
      then have "nat (- i) = nat (- j)" by (rule decimalOfNat_inj)
      with True \<open>i < 0\<close> show ?thesis by simp
    next
      case False
      with \<open>i < 0\<close> e have "CHR ''-'' # decimalOfNat (nat (- i)) = decimalOfNat (nat j)"
        by (simp add: decimalOfInt_def)
      then have "hd (decimalOfNat (nat j)) = CHR ''-''" by (metis list.sel(1))
      with hd_nat show ?thesis by simp
    qed
  next
    case False
    show ?thesis
    proof (cases "j < 0")
      case True
      with \<open>\<not> i < 0\<close> e have "decimalOfNat (nat i) = CHR ''-'' # decimalOfNat (nat (- j))"
        by (simp add: decimalOfInt_def)
      then have "hd (decimalOfNat (nat i)) = CHR ''-''" by (metis list.sel(1))
      with hd_nat show ?thesis by simp
    next
      case False
      with \<open>\<not> i < 0\<close> e have "decimalOfNat (nat i) = decimalOfNat (nat j)"
        by (simp add: decimalOfInt_def)
      then have "nat i = nat j" by (rule decimalOfNat_inj)
      with False \<open>\<not> i < 0\<close> show ?thesis by simp
    qed
  qed
qed

lemma decimalOfInt_4: "decimalOfInt 4 = ''4''"
  by code_simp

lemma decimalOfInt_5: "decimalOfInt 5 = ''5''"
  by code_simp

lemma numberToString_four: "numberToString four = ''4''"
  by (simp add: numberToString_def four.rep_eq numberOf.rep_eq decimalOfInt_4)

lemma numberToString_five: "numberToString (plusOne four) = ''5''"
  by (simp add: numberToString_def four.rep_eq plusOne.rep_eq numberOf.rep_eq decimalOfInt_5)

lemma numberOf_inj: "numberOf x = numberOf y \<Longrightarrow> x = y"
  by transfer simp

lemma numberToString_inj: "numberToString x = numberToString y \<Longrightarrow> x = y"
  unfolding numberToString_def by (blast dest: decimalOfInt_inj numberOf_inj)

lemma minusOne_plusOne: "numberOf x \<noteq> 2 ^ 53 \<Longrightarrow> minusOne (plusOne x) = x"
  by transfer auto

lemma plusOne_value: "numberOf x \<noteq> 2 ^ 53 \<Longrightarrow> numberOf (plusOne x) = numberOf x + 1"
  by transfer auto

lemma minusOne_value: "numberOf x \<noteq> - (2 ^ 53) \<Longrightarrow> numberOf (minusOne x) = numberOf x - 1"
  by transfer auto

lemma plusOne_absorbed: "plusOne maxOctave = maxOctave"
  by transfer simp

lemma minusOne_maxOctave: "numberOf (minusOne maxOctave) = 2 ^ 53 - 1"
  by transfer simp

lemma fold_handleOctaveChange:
  "fold handleOctaveChange directions s =
     s\<lparr>octave := octave (fold handleOctaveChange directions s)\<rparr>"
proof (induction directions arbitrary: s)
  case Nil
  show ?case by simp
next
  case (Cons d ds)
  have "fold handleOctaveChange (d # ds) s = fold handleOctaveChange ds (handleOctaveChange d s)"
    by simp
  also have "\<dots> = (handleOctaveChange d s)\<lparr>octave := octave (fold handleOctaveChange ds (handleOctaveChange d s))\<rparr>"
    by (rule Cons.IH)
  also have "\<dots> = s\<lparr>octave := octave (fold handleOctaveChange (d # ds) s)\<rparr>"
    by (simp add: handleOctaveChange_def)
  finally show ?case .
qed

lemma readHeader_silenceWav:
  "specReadHeader silenceWav =
     Inr (Some \<lparr>dataOffset = 44, dataLen = 88200, channels = 1, sampleRate = 44100,
                 bitsPerSample = 16\<rparr>)"
  by (simp add: specReadHeader_def silenceWav_def silenceHeader_def le32_def le16_def nth_append)

lemma readHeader_stereo8Wav:
  "specReadHeader stereo8Wav =
     Inr (Some \<lparr>dataOffset = 44, dataLen = 2, channels = 2, sampleRate = 44100,
                 bitsPerSample = 8\<rparr>)"
  by (simp add: specReadHeader_def stereo8Wav_def le32_def le16_def)

lemma length_silenceWav: "length silenceWav = 88244"
  by (simp add: silenceWav_def silenceHeader_def)

lemma length_stereo8Wav: "length stereo8Wav = 46"
  by (simp add: stereo8Wav_def)

lemma exampleLib_neverThrows: "neverThrows exampleLib"
  by (simp add: neverThrows_def exampleLib_def)

lemma exampleLib_drainsAtFlush: "drainsAtFlush exampleLib"
  by (auto simp: drainsAtFlush_def exampleLib_def)

lemma feed_exampleLib:
  "feed (encodeBuffer exampleLib) buffered chunks mp3Data
     = Inr (buffered + length (concat chunks), mp3Data)"
  by (induction chunks arbitrary: buffered) (auto simp: exampleLib_def)

lemma convertToMp3_exampleLib:
  assumes "specReadHeader wavBuffer = Inr (Some wav)"
  shows "convertToMp3 exampleLib wavBuffer =
           Inr (if wavBuffer = [] then [] else [replicate (length wavBuffer) 0])"
proof -
  have h: "readHeader exampleLib wavBuffer = Inr (Some wav)"
    using assms by (simp add: exampleLib_def)
  have c: "concat (encodeBufferCalls (map ucast wavBuffer :: 16 word list)) = map ucast wavBuffer"
    by (simp add: encodeBufferCalls_chunks concat_chunksFrom0)
  have m: "Mp3Encoder exampleLib 1 (sampleRate wav) 128 = Inr 0"
    by (simp add: exampleLib_def)
  have f: "flush exampleLib n = Inr (replicate n 0)" for n
    by (simp add: exampleLib_def)
  show ?thesis
    by (simp only: convertToMp3_feed[OF h] m feed_exampleLib c f sum.case prod.case) auto
qed

section \<open>Properties\<close>

text \<open>
  Claim C9. \<open>getNoteFromKeyCode\<close> is a function of the key code alone. It returns \<open>null\<close>
  exactly on the codes outside its table, and on such a code neither key handler changes
  anything. The table has 11 codes and 11 notes, and no note is reached from two codes.
\<close>

theorem getNoteFromKeyCode_table:
  "(getNoteFromKeyCode k = None \<longleftrightarrow> k \<notin> {65, 83, 68, 70, 71, 72, 74, 75, 76, 186, 222}) \<and>
   (getNoteFromKeyCode k = None \<longrightarrow> handleKeyDown k s = s \<and> handleKeyUp k s = s) \<and>
   card {c. getNoteFromKeyCode c \<noteq> None} = 11 \<and>
   card {n. \<exists>c. getNoteFromKeyCode c = Some n} = 11 \<and>
   (\<forall>c1 c2 n. getNoteFromKeyCode c1 = Some n \<and> getNoteFromKeyCode c2 = Some n \<longrightarrow> c1 = c2)"
proof -
  have a: "getNoteFromKeyCode k = None \<longleftrightarrow> k \<notin> {65, 83, 68, 70, 71, 72, 74, 75, 76, 186, 222}"
    using keyCodes_mapped by blast
  have b: "getNoteFromKeyCode k = None \<longrightarrow> handleKeyDown k s = s \<and> handleKeyUp k s = s"
    by (simp add: handleKeyDown_def handleKeyUp_def truthy_def split: option.splits)
  have c: "card {c. getNoteFromKeyCode c \<noteq> None} = 11"
    unfolding keyCodes_mapped by simp
  have d: "card {n. \<exists>c. getNoteFromKeyCode c = Some n} = 11"
    unfolding notes_mapped by simp
  have e: "\<forall>c1 c2 n. getNoteFromKeyCode c1 = Some n \<and> getNoteFromKeyCode c2 = Some n \<longrightarrow> c1 = c2"
    by (auto simp: getNoteFromKeyCode_def split: if_splits)
  from a b c d e show ?thesis by blast
qed

theorem getNoteFromKeyCode_table_witness:
  "getNoteFromKeyCode 66 = None \<and> handleKeyDown 66 mounted = mounted \<and>
   handleKeyUp 66 mounted = mounted \<and>
   getNoteFromKeyCode 65 = Some ''C'' \<and> getNoteFromKeyCode 222 = Some ''G#''"
  using getNoteFromKeyCode_table [of 66 mounted]
  by (simp add: getNoteFromKeyCode_def)

text \<open>
  Claim C1. When the note of the pressed key is already in \<open>activeNotes\<close>, the keydown
  handler changes nothing: no call reaches the synth and the set stays as it is. Pressing
  a key whose note is not held adds the note and one \<open>triggerAttack\<close>; pressing it a second
  time with no release in between adds nothing more, so the two presses together produce
  exactly one attack.
\<close>

theorem handleKeyDown_dedup:
  assumes "getNoteFromKeyCode k = Some n"
  shows "(n \<in> activeNotes s \<longrightarrow> handleKeyDown k s = s) \<and>
         (n \<notin> activeNotes t \<and> synth t = Some calls \<longrightarrow>
            handleKeyDown k t = t\<lparr>activeNotes := insert n (activeNotes t),
                                   synth := Some (calls @ [TriggerAttack (getNoteWithOctave t n)])\<rparr> \<and>
            handleKeyDown k (handleKeyDown k t) =
              t\<lparr>activeNotes := insert n (activeNotes t),
                synth := Some (calls @ [TriggerAttack (getNoteWithOctave t n)])\<rparr>)"
  using assms getNoteFromKeyCode_truthy[OF assms]
  by (auto simp: handleKeyDown_def Let_def split: option.splits)

theorem handleKeyDown_dedup_witness:
  "getNoteFromKeyCode 65 = Some ''C'' \<and>
   ''C'' \<in> activeNotes (mounted\<lparr>activeNotes := {''C''}\<rparr>) \<and>
   handleKeyDown 65 (mounted\<lparr>activeNotes := {''C''}\<rparr>) = mounted\<lparr>activeNotes := {''C''}\<rparr> \<and>
   ''C'' \<notin> activeNotes mounted \<and> synth mounted = Some [] \<and>
   synth (handleKeyDown 65 (handleKeyDown 65 mounted)) = Some [TriggerAttack ''C4'']"
proof -
  have k: "getNoteFromKeyCode 65 = Some ''C''" by (simp add: getNoteFromKeyCode_def)
  have h: "''C'' \<notin> activeNotes mounted" by (simp add: mounted_def)
  have c: "synth mounted = Some []" by (simp add: mounted_def)
  have p: "getNoteWithOctave mounted ''C'' = ''C4''"
    by (simp add: getNoteWithOctave_def mounted_def numberToString_four)
  note t = handleKeyDown_dedup [OF k, of "mounted\<lparr>activeNotes := {''C''}\<rparr>" mounted "[]"]
  have a: "handleKeyDown 65 (mounted\<lparr>activeNotes := {''C''}\<rparr>) = mounted\<lparr>activeNotes := {''C''}\<rparr>"
    using t by simp
  have r: "handleKeyDown 65 (handleKeyDown 65 mounted) =
             mounted\<lparr>activeNotes := insert ''C'' (activeNotes mounted),
               synth := Some ([] @ [TriggerAttack (getNoteWithOctave mounted ''C'')])\<rparr>"
    using t h c by blast
  show ?thesis
    using k h c by (simp add: a r p)
qed

text \<open>
  Claim C8. When the note of the released key is not in \<open>activeNotes\<close>, the keyup handler
  changes nothing: no \<open>triggerRelease\<close> and no change of the set.
\<close>

theorem handleKeyUp_absent:
  assumes "getNoteFromKeyCode k = Some n" and "n \<notin> activeNotes s"
  shows "handleKeyUp k s = s"
  using assms by (simp add: handleKeyUp_def Let_def split: option.splits)

theorem handleKeyUp_absent_witness:
  "getNoteFromKeyCode 65 = Some ''C'' \<and> ''C'' \<notin> activeNotes mounted \<and>
   handleKeyUp 65 mounted = mounted"
proof -
  have k: "getNoteFromKeyCode 65 = Some ''C''" by (simp add: getNoteFromKeyCode_def)
  have h: "''C'' \<notin> activeNotes mounted" by (simp add: mounted_def)
  show ?thesis using k h handleKeyUp_absent [OF k h] by simp
qed

text \<open>
  Claim C6. The handlers of the on-screen key buttons never look at \<open>activeNotes\<close>: with
  the synth present, mouse-down and touch-start always add a \<open>triggerAttack\<close>, mouse-up
  and touch-end always add a \<open>triggerRelease\<close>, whether or not the note is held, and the
  set is left as it was.
\<close>

theorem keyboard_buttons_bypass:
  assumes "synth s = Some calls"
  shows "onMouseDown note s = s\<lparr>synth := Some (calls @ [TriggerAttack (getNoteWithOctave s note)])\<rparr> \<and>
         onTouchStart note s = s\<lparr>synth := Some (calls @ [TriggerAttack (getNoteWithOctave s note)])\<rparr> \<and>
         onMouseUp note s = s\<lparr>synth := Some (calls @ [TriggerRelease (getNoteWithOctave s note)])\<rparr> \<and>
         onTouchEnd note s = s\<lparr>synth := Some (calls @ [TriggerRelease (getNoteWithOctave s note)])\<rparr> \<and>
         activeNotes (onMouseDown note s) = activeNotes s \<and>
         activeNotes (onTouchStart note s) = activeNotes s \<and>
         activeNotes (onMouseUp note s) = activeNotes s \<and>
         activeNotes (onTouchEnd note s) = activeNotes s"
  using assms by (simp add: onMouseDown_def onTouchStart_def onMouseUp_def onTouchEnd_def)

theorem keyboard_buttons_bypass_witness:
  "''C'' \<in> set keyboardNotes \<and>
   synth (mounted\<lparr>activeNotes := {''C''}\<rparr>) = Some [] \<and>
   ''C'' \<in> activeNotes (mounted\<lparr>activeNotes := {''C''}\<rparr>) \<and>
   synth (onMouseDown ''C'' (mounted\<lparr>activeNotes := {''C''}\<rparr>)) = Some [TriggerAttack ''C4''] \<and>
   synth (onTouchEnd ''C'' (mounted\<lparr>activeNotes := {''C''}\<rparr>)) = Some [TriggerRelease ''C4''] \<and>
   activeNotes (onMouseUp ''C'' (mounted\<lparr>activeNotes := {''C''}\<rparr>)) = {''C''}"
proof -
  have p: "getNoteWithOctave (mounted\<lparr>activeNotes := {''C''}\<rparr>) ''C'' = ''C4''"
    by (simp add: getNoteWithOctave_def mounted_def numberToString_four)
  have h: "synth (mounted\<lparr>activeNotes := {''C''}\<rparr>) = Some []" by (simp add: mounted_def)
  show ?thesis
    using h keyboard_buttons_bypass [OF h, of "''C''"] p
    by (simp add: mounted_def keyboardNotes_def)
qed

text \<open>
  Claim C7, as the code has it. Neither octave shift touches \<open>activeNotes\<close>, whatever the
  octave. From every octave other than \<open>2^53\<close>, a shift up followed by a shift down
  restores the state, the octave included, so a pitch resolved afterwards is the pitch
  resolved before.
\<close>

theorem octave_up_down:
  "activeNotes (handleOctaveChange ''up'' s) = activeNotes s \<and>
   activeNotes (handleOctaveChange ''down'' (handleOctaveChange ''up'' s)) = activeNotes s \<and>
   (numberOf (octave s) \<noteq> 2 ^ 53 \<longrightarrow>
      numberOf (octave (handleOctaveChange ''up'' s)) = numberOf (octave s) + 1 \<and>
      handleOctaveChange ''down'' (handleOctaveChange ''up'' s) = s \<and>
      getNoteWithOctave (handleOctaveChange ''down'' (handleOctaveChange ''up'' s)) note
        = getNoteWithOctave s note)"
  by (simp add: handleOctaveChange_def minusOne_plusOne plusOne_value)

theorem octave_up_down_witness:
  "numberOf (octave mounted) = 4 \<and> (4 :: int) \<noteq> 2 ^ 53 \<and>
   numberOf (octave (handleOctaveChange ''up'' mounted)) = 5 \<and>
   handleOctaveChange ''down'' (handleOctaveChange ''up'' mounted) = mounted \<and>
   getNoteWithOctave (handleOctaveChange ''down'' (handleOctaveChange ''up'' mounted)) ''C'' = ''C4''"
proof -
  have o: "numberOf (octave mounted) = 4"
    by (simp add: mounted_def four.rep_eq numberOf.rep_eq)
  have p: "getNoteWithOctave mounted ''C'' = ''C4''"
    by (simp add: getNoteWithOctave_def mounted_def numberToString_four)
  show ?thesis
    using octave_up_down [of mounted "''C''"] o p by simp
qed

text \<open>
  At the octave \<open>2^53\<close> the shift up is absorbed, and the shift down that follows leaves the
  octave at \<open>2^53 - 1\<close>.
\<close>

theorem octave_up_down_at_limit:
  "numberOf (octave (mounted\<lparr>octave := maxOctave\<rparr>)) = 9007199254740992 \<and>
   numberOf (octave (handleOctaveChange ''up'' (mounted\<lparr>octave := maxOctave\<rparr>))) = 9007199254740992 \<and>
   numberOf (octave (handleOctaveChange ''down'' (handleOctaveChange ''up''
      (mounted\<lparr>octave := maxOctave\<rparr>)))) = 9007199254740991"
  by (simp add: handleOctaveChange_def numberOf.rep_eq plusOne.rep_eq minusOne.rep_eq
      maxOctave.rep_eq)

text \<open>
  Claim C10, as the code has it. Press a key whose note is not held, shift the octave any
  number of times, release the key. The attack carries the octave at press time and the
  release the octave at release time. The two pitches are equal exactly when the two
  octaves are; they differ after a single shift that is not absorbed at \<open>2^53\<close> or
  \<open>-2^53\<close>. When they differ, no release for the attacked pitch is emitted, and since
  the note has left \<open>activeNotes\<close> a further keyup emits nothing either.
\<close>

theorem release_uses_current_octave:
  assumes "getNoteFromKeyCode k = Some n" and "n \<notin> activeNotes s" and "synth s = Some calls"
    and "pressed = handleKeyDown k s"
    and "shifted = fold handleOctaveChange directions pressed"
    and "released = handleKeyUp k shifted"
  shows "synth released = Some (calls @ [TriggerAttack (getNoteWithOctave s n),
                                          TriggerRelease (getNoteWithOctave shifted n)]) \<and>
         (getNoteWithOctave shifted n = getNoteWithOctave s n \<longleftrightarrow> octave shifted = octave s) \<and>
         (directions = [''up''] \<and> numberOf (octave s) \<noteq> 2 ^ 53 \<longrightarrow>
            numberOf (octave shifted) = numberOf (octave s) + 1) \<and>
         (directions = [''down''] \<and> numberOf (octave s) \<noteq> - (2 ^ 53) \<longrightarrow>
            numberOf (octave shifted) = numberOf (octave s) - 1) \<and>
         (octave shifted \<noteq> octave s \<longrightarrow>
            TriggerRelease (getNoteWithOctave s n) \<notin> set (drop (length calls) (the (synth released)))) \<and>
         n \<notin> activeNotes released \<and>
         handleKeyUp k released = released"
proof -
  have tr: "truthy (getNoteFromKeyCode k)" using assms(1) by (rule getNoteFromKeyCode_truthy)
  have p: "pressed = s\<lparr>activeNotes := insert n (activeNotes s),
                        synth := Some (calls @ [TriggerAttack (getNoteWithOctave s n)])\<rparr>"
    using assms(1-4) tr by (simp add: handleKeyDown_def)
  have sh: "shifted = pressed\<lparr>octave := octave shifted\<rparr>"
    unfolding assms(5) by (rule fold_handleOctaveChange)
  have sa: "activeNotes shifted = insert n (activeNotes s)"
    and ss: "synth shifted = Some (calls @ [TriggerAttack (getNoteWithOctave s n)])"
    by (subst sh, simp add: p)+
  have r: "released = shifted\<lparr>activeNotes := activeNotes shifted - {n},
             synth := Some (calls @ [TriggerAttack (getNoteWithOctave s n)]
                                  @ [TriggerRelease (getNoteWithOctave shifted n)])\<rparr>"
    using assms(1,6) tr sa ss by (simp add: handleKeyUp_def)
  have a: "synth released = Some (calls @ [TriggerAttack (getNoteWithOctave s n),
                                          TriggerRelease (getNoteWithOctave shifted n)])"
    by (subst r) simp
  have b: "getNoteWithOctave shifted n = getNoteWithOctave s n \<longleftrightarrow> octave shifted = octave s"
    using numberToString_inj by (auto simp: getNoteWithOctave_def)
  have c: "directions = [''up''] \<and> numberOf (octave s) \<noteq> 2 ^ 53 \<longrightarrow>
            numberOf (octave shifted) = numberOf (octave s) + 1"
    unfolding assms(5) by (simp add: handleOctaveChange_def p plusOne_value)
  have d: "directions = [''down''] \<and> numberOf (octave s) \<noteq> - (2 ^ 53) \<longrightarrow>
            numberOf (octave shifted) = numberOf (octave s) - 1"
    unfolding assms(5) by (simp add: handleOctaveChange_def p minusOne_value)
  have e: "octave shifted \<noteq> octave s \<longrightarrow>
            TriggerRelease (getNoteWithOctave s n) \<notin> set (drop (length calls) (the (synth released)))"
    using b by (auto simp: a)
  have f: "n \<notin> activeNotes released" by (subst r) simp
  have g: "handleKeyUp k released = released"
    using assms(1) f by (simp add: handleKeyUp_def Let_def split: option.splits)
  from a b c d e f g show ?thesis by blast
qed

theorem release_uses_current_octave_witness:
  "getNoteFromKeyCode 65 = Some ''C'' \<and> ''C'' \<notin> activeNotes mounted \<and> synth mounted = Some [] \<and>
   numberOf (octave mounted) \<noteq> 2 ^ 53 \<and>
   numberOf (octave (fold handleOctaveChange [''up''] (handleKeyDown 65 mounted))) = 5 \<and>
   octave (fold handleOctaveChange [''up''] (handleKeyDown 65 mounted)) \<noteq> octave mounted \<and>
   synth (handleKeyUp 65 (fold handleOctaveChange [''up''] (handleKeyDown 65 mounted)))
     = Some [TriggerAttack ''C4'', TriggerRelease ''C5''] \<and>
   TriggerRelease ''C4'' \<notin> set (the (synth (handleKeyUp 65
       (fold handleOctaveChange [''up''] (handleKeyDown 65 mounted)))))"
proof -
  have k: "getNoteFromKeyCode 65 = Some ''C''" by (simp add: getNoteFromKeyCode_def)
  have h: "''C'' \<notin> activeNotes mounted" by (simp add: mounted_def)
  have c: "synth mounted = Some []" by (simp add: mounted_def)
  have o: "numberOf (octave mounted) = 4"
    by (simp add: mounted_def four.rep_eq numberOf.rep_eq)
  have p: "getNoteWithOctave mounted ''C'' = ''C4''"
    by (simp add: getNoteWithOctave_def mounted_def numberToString_four)
  have q: "getNoteWithOctave (fold handleOctaveChange [''up''] (handleKeyDown 65 mounted)) ''C'' = ''C5''"
    by (simp add: getNoteWithOctave_def handleOctaveChange_def handleKeyDown_def mounted_def k
        truthy_def numberToString_five)
  note t = release_uses_current_octave [OF k h c refl refl refl, of "[''up'']"]
  have v: "numberOf (octave (fold handleOctaveChange [''up''] (handleKeyDown 65 mounted))) = 5"
    using t o by simp
  then have n: "octave (fold handleOctaveChange [''up''] (handleKeyDown 65 mounted)) \<noteq> octave mounted"
    using o by auto
  have l: "synth (handleKeyUp 65 (fold handleOctaveChange [''up''] (handleKeyDown 65 mounted)))
     = Some [TriggerAttack ''C4'', TriggerRelease ''C5'']"
    using t p q by simp
  have m: "TriggerRelease ''C4'' \<notin> set (the (synth (handleKeyUp 65
       (fold handleOctaveChange [''up''] (handleKeyDown 65 mounted)))))"
    by (simp only: l) simp
  from k h c o v n l m show ?thesis by simp
qed

text \<open>
  Shifting up and then down between press and release gives a release of the very pitch
  that was attacked; so does a single shift up at the octave \<open>2^53\<close>.
\<close>

theorem release_after_cancelling_shifts:
  "synth (handleKeyUp 65 (handleOctaveChange ''down'' (handleOctaveChange ''up''
      (handleKeyDown 65 mounted))))
     = Some [TriggerAttack ''C4'', TriggerRelease ''C4''] \<and>
   synth (handleKeyUp 65 (handleOctaveChange ''up''
      (handleKeyDown 65 (mounted\<lparr>octave := maxOctave\<rparr>))))
     = Some [TriggerAttack (getNoteWithOctave (mounted\<lparr>octave := maxOctave\<rparr>) ''C''),
             TriggerRelease (getNoteWithOctave (mounted\<lparr>octave := maxOctave\<rparr>) ''C'')]"
proof -
  have k: "getNoteFromKeyCode 65 = Some ''C''" by (simp add: getNoteFromKeyCode_def)
  have f: "numberOf four \<noteq> 2 ^ 53" by (simp add: four.rep_eq numberOf.rep_eq)
  show ?thesis
    by (simp add: handleKeyUp_def handleKeyDown_def handleOctaveChange_def mounted_def k truthy_def
        getNoteWithOctave_def numberToString_four minusOne_plusOne[OF f] plusOne_absorbed)
qed

text \<open>
  Claim C2, as the code has it. For every encoder, the loop of \<open>convertToMp3\<close> calls
  \<open>encodeBuffer\<close> on exactly the chunks \<open>encodeBufferCalls samples\<close>, in order (up to the
  first call that throws). These chunks cut the sample array into consecutive pieces:
  there are \<open>\<lceil>n / 1152\<rceil>\<close> of them, chunk \<open>j\<close> holds \<open>min 1152 (n - 1152 j)\<close> samples, and
  when \<open>n\<close> is not a multiple of 1152 the last call of the loop receives the \<open>n mod 1152\<close>
  leftover samples. \<open>flush\<close> receives no samples. The value returned holds the non-empty
  outputs of these calls followed by the flush output if that is non-empty; it is
  non-empty for every non-empty buffer whose header is parsed, when no library call
  throws and the encoder yields bytes for a non-empty chunk at once or at the next flush.
\<close>

theorem encodeLoop_blocks:
  "encodeLoop encodeBuf samples 0 enc [] = feed encodeBuf enc (encodeBufferCalls samples) [] \<and>
   concat (encodeBufferCalls samples) = samples \<and>
   length (encodeBufferCalls samples) = (length samples + 1151) div 1152 \<and>
   (\<forall>j < length (encodeBufferCalls samples).
      length (encodeBufferCalls samples ! j) = min 1152 (length samples - 1152 * j)) \<and>
   (length samples mod 1152 \<noteq> 0 \<longrightarrow>
      encodeBufferCalls samples \<noteq> [] \<and>
      length (last (encodeBufferCalls samples)) = length samples mod 1152) \<and>
   (readHeader lib wavBuffer = Inr (Some wav) \<longrightarrow>
      convertToMp3 lib wavBuffer =
        (case Mp3Encoder lib 1 (sampleRate wav) 128 of
            Inl e \<Rightarrow> Inl e
          | Inr mp3Encoder \<Rightarrow>
              (case feed (encodeBuffer lib) mp3Encoder (encodeBufferCalls (map ucast wavBuffer)) [] of
                 Inl e \<Rightarrow> Inl e
               | Inr (enc, mp3Data) \<Rightarrow>
                   (case flush lib enc of
                      Inl e \<Rightarrow> Inl e
                    | Inr mp3buf \<Rightarrow> Inr (if mp3buf \<noteq> [] then mp3Data @ [mp3buf] else mp3Data))))) \<and>
   (readHeader lib wavBuffer = Inr (Some wav) \<and> neverThrows lib \<and> drainsAtFlush lib \<and>
      wavBuffer \<noteq> [] \<longrightarrow>
      (\<exists>frames. convertToMp3 lib wavBuffer = Inr frames \<and> frames \<noteq> []))"
proof -
  have a: "encodeLoop encodeBuf samples 0 enc [] = feed encodeBuf enc (encodeBufferCalls samples) []"
    by (simp add: encodeLoop_feed encodeBufferCalls_chunks)
  have b: "concat (encodeBufferCalls samples) = samples"
    by (simp add: encodeBufferCalls_chunks concat_chunksFrom0)
  have c: "length (encodeBufferCalls samples) = (length samples + 1151) div 1152"
    by (simp add: encodeBufferCalls_chunks length_chunksFrom0)
  have d: "\<forall>j < length (encodeBufferCalls samples).
      length (encodeBufferCalls samples ! j) = min 1152 (length samples - 1152 * j)"
    using nth_chunksFrom0[of _ samples] by (simp add: encodeBufferCalls_chunks)
  have e: "length samples mod 1152 \<noteq> 0 \<longrightarrow>
      encodeBufferCalls samples \<noteq> [] \<and>
      length (last (encodeBufferCalls samples)) = length samples mod 1152"
    using last_chunksFrom0[of samples] by (simp add: encodeBufferCalls_chunks)
  have f: "readHeader lib wavBuffer = Inr (Some wav) \<longrightarrow>
      convertToMp3 lib wavBuffer =
        (case Mp3Encoder lib 1 (sampleRate wav) 128 of
            Inl e \<Rightarrow> Inl e
          | Inr mp3Encoder \<Rightarrow>
              (case feed (encodeBuffer lib) mp3Encoder (encodeBufferCalls (map ucast wavBuffer)) [] of
                 Inl e \<Rightarrow> Inl e
               | Inr (enc, mp3Data) \<Rightarrow>
                   (case flush lib enc of
                      Inl e \<Rightarrow> Inl e
                    | Inr mp3buf \<Rightarrow> Inr (if mp3buf \<noteq> [] then mp3Data @ [mp3buf] else mp3Data))))"
    using convertToMp3_feed[of lib wavBuffer wav] by blast
  have g: "readHeader lib wavBuffer = Inr (Some wav) \<and> neverThrows lib \<and> drainsAtFlush lib \<and>
      wavBuffer \<noteq> [] \<longrightarrow>
      (\<exists>frames. convertToMp3 lib wavBuffer = Inr frames \<and> frames \<noteq> [])"
    using convertToMp3_nonempty[of lib wavBuffer wav] by blast
  from a b c d e f g show ?thesis by blast
qed

theorem encodeLoop_blocks_witness:
  "length (map ucast silenceWav :: 16 word list) = 88244 \<and>
   length (encodeBufferCalls (map ucast silenceWav :: 16 word list)) = 77 \<and>
   length (encodeBufferCalls (map ucast silenceWav :: 16 word list) ! 75) = 1152 \<and>
   length (encodeBufferCalls (map ucast silenceWav :: 16 word list) ! 76) = 692 \<and>
   length (last (encodeBufferCalls (map ucast silenceWav :: 16 word list))) = 692 \<and>
   readHeader exampleLib silenceWav
     = Inr (Some \<lparr>dataOffset = 44, dataLen = 88200, channels = 1, sampleRate = 44100,
                   bitsPerSample = 16\<rparr>) \<and>
   neverThrows exampleLib \<and> drainsAtFlush exampleLib \<and> silenceWav \<noteq> [] \<and>
   convertToMp3 exampleLib silenceWav = Inr [replicate 88244 0] \<and>
   (\<exists>frames. convertToMp3 exampleLib silenceWav = Inr frames \<and> frames \<noteq> [])"
proof -
  let ?samples = "map ucast silenceWav :: 16 word list"
  let ?hdr = "\<lparr>dataOffset = 44, dataLen = 88200, channels = 1, sampleRate = 44100,
                bitsPerSample = 16\<rparr>"
  note t = encodeLoop_blocks [of "encodeBuffer exampleLib" ?samples 0 exampleLib silenceWav ?hdr]
  have s: "length ?samples = 88244" by (simp add: length_silenceWav)
  have n: "length (encodeBufferCalls ?samples) = 77"
    using t s by simp
  have j: "length (encodeBufferCalls ?samples ! 75) = 1152"
    using t n s by simp
  have k: "length (encodeBufferCalls ?samples ! 76) = 692"
    using t n s by simp
  have l: "length (last (encodeBufferCalls ?samples)) = 692"
    using t s by simp
  have h: "readHeader exampleLib silenceWav = Inr (Some ?hdr)"
    by (simp add: exampleLib_def readHeader_silenceWav)
  have w: "silenceWav \<noteq> []" using length_silenceWav by auto
  have r: "convertToMp3 exampleLib silenceWav = Inr [replicate 88244 0]"
    using w by (simp add: convertToMp3_exampleLib[OF readHeader_silenceWav] length_silenceWav)
  have e: "\<exists>frames. convertToMp3 exampleLib silenceWav = Inr frames \<and> frames \<noteq> []"
    using t h w exampleLib_neverThrows exampleLib_drainsAtFlush by blast
  from s n j k l h w r e exampleLib_neverThrows exampleLib_drainsAtFlush show ?thesis by blast
qed

text \<open>
  The loop does hand a partial block to \<open>encodeBuffer\<close>: a one-sample array gives one call
  with that one sample, and for the one-second silence buffer the last call of the loop is
  on 692 samples.
\<close>

theorem partial_block_in_loop:
  "encodeBufferCalls [0 :: 16 word] = [[0]] \<and> length [0 :: 16 word] < sampleBlockSize \<and>
   length (last (encodeBufferCalls (map ucast silenceWav :: 16 word list))) = 692 \<and>
   (692 :: nat) < sampleBlockSize"
proof -
  have a: "encodeBufferCalls [0 :: 16 word] = [[0]]"
    by (simp add: encodeBufferCalls_chunks chunksFrom_def sampleBlockSize_def)
  have b: "length (last (encodeBufferCalls (map ucast silenceWav :: 16 word list))) = 692"
    using last_chunksFrom0[of "map ucast silenceWav :: 16 word list"]
    by (simp add: encodeBufferCalls_chunks length_silenceWav)
  from a b show ?thesis by (simp add: sampleBlockSize_def)
qed

text \<open>
  Claim C3, as the code has it. \<open>startRecording\<close> has no guard on the session state.
  Called while the current recorder is recording, it connects one more stream
  destination to the synth, creates and starts a new recorder and stores it in
  \<open>mediaRecorder.current\<close>; the earlier recorder stays recording and is no longer
  referenced. Only the chunk sequence is left as it was, and the session is still
  capturing.
\<close>

theorem startRecording_replaces_recorder:
  assumes "capturing s" and "mediaRecorder s = Some r" and "synth s = Some calls"
  shows "startRecording s =
           (s\<lparr>audioContext := True,
              synth := Some (calls @ [Connect (length (recorders s))]),
              recorders := recorders s @ [Recording],
              mediaRecorder := Some (length (recorders s))\<rparr>, None) \<and>
         mediaRecorder (fst (startRecording s)) \<noteq> mediaRecorder s \<and>
         recorders (fst (startRecording s)) ! r = Recording \<and>
         audioChunks (fst (startRecording s)) = audioChunks s \<and>
         capturing (fst (startRecording s))"
proof -
  have r: "r < length (recorders s)" "recorders s ! r = Recording"
    using assms(1,2) by (simp_all add: capturing_def)
  have e: "startRecording s =
           (s\<lparr>audioContext := True,
              synth := Some (calls @ [Connect (length (recorders s))]),
              recorders := recorders s @ [Recording],
              mediaRecorder := Some (length (recorders s))\<rparr>, None)"
    using assms(3) by (simp add: startRecording_def initializeAudioContext_def)
  show ?thesis
    unfolding e using r assms(2) by (simp add: capturing_def nth_append)
qed

theorem startRecording_replaces_recorder_witness:
  "capturing (fst (startRecording mounted)) \<and>
   mediaRecorder (fst (startRecording mounted)) = Some 0 \<and>
   synth (fst (startRecording mounted)) = Some [Connect 0] \<and>
   mediaRecorder (fst (startRecording (fst (startRecording mounted)))) = Some 1 \<and>
   recorders (fst (startRecording (fst (startRecording mounted)))) = [Recording, Recording] \<and>
   audioChunks (fst (startRecording (fst (startRecording mounted)))) = []"
proof -
  have m: "fst (startRecording mounted) =
             \<lparr>octave = four, audioContext = True, mediaRecorder = Some 0, recorders = [Recording],
              audioChunks = [], activeNotes = {}, synth = Some [Connect 0], saved = []\<rparr>"
    by (simp add: startRecording_def initializeAudioContext_def mounted_def)
  have c: "capturing (fst (startRecording mounted))" by (simp add: m capturing_def)
  have r: "mediaRecorder (fst (startRecording mounted)) = Some 0" by (simp add: m)
  have s: "synth (fst (startRecording mounted)) = Some [Connect 0]" by (simp add: m)
  note t = startRecording_replaces_recorder [OF c r s]
  from t c r s show ?thesis by (simp add: m)
qed

text \<open>
  After mounting and one \<open>startRecording\<close> the session is capturing with recorder 0; a
  second \<open>startRecording\<close> is not ignored and leaves recorder 1 current.
\<close>

theorem startRecording_not_ignored:
  "capturing (fst (startRecording mounted)) \<and>
   startRecording (fst (startRecording mounted)) \<noteq> (fst (startRecording mounted), None) \<and>
   mediaRecorder (fst (startRecording mounted)) = Some 0 \<and>
   mediaRecorder (fst (startRecording (fst (startRecording mounted)))) = Some 1"
  by (simp add: startRecording_def initializeAudioContext_def mounted_def capturing_def)

text \<open>
  Claim C4, as the code has it. \<open>convertToMp3\<close> has no check of the channel count or bit
  depth that the header declares. Whenever the parser returns a header, the result is
  that of a one-channel encoder at the header's sample rate and 128 kbps, fed with one
  sample for every byte of the buffer: the declared channel count and bit depth occur
  nowhere in it, an error can only be one that a library call throws, and frames are
  returned when none does.
\<close>

theorem convertToMp3_ignores_format:
  assumes "readHeader lib wavBuffer = Inr (Some wav)"
  shows "convertToMp3 lib wavBuffer =
           (case Mp3Encoder lib 1 (sampleRate wav) 128 of
               Inl e \<Rightarrow> Inl e
             | Inr mp3Encoder \<Rightarrow>
                 (case feed (encodeBuffer lib) mp3Encoder (encodeBufferCalls (map ucast wavBuffer)) [] of
                    Inl e \<Rightarrow> Inl e
                  | Inr (enc, mp3Data) \<Rightarrow>
                      (case flush lib enc of
                         Inl e \<Rightarrow> Inl e
                       | Inr mp3buf \<Rightarrow> Inr (if mp3buf \<noteq> [] then mp3Data @ [mp3buf] else mp3Data)))) \<and>
         (neverThrows lib \<longrightarrow> (\<exists>frames. convertToMp3 lib wavBuffer = Inr frames))"
  using convertToMp3_feed[OF assms] convertToMp3_returns[OF assms] by blast

theorem convertToMp3_ignores_format_witness:
  "readHeader exampleLib stereo8Wav
     = Inr (Some \<lparr>dataOffset = 44, dataLen = 2, channels = 2, sampleRate = 44100,
                   bitsPerSample = 8\<rparr>) \<and>
   neverThrows exampleLib \<and>
   (\<exists>frames. convertToMp3 exampleLib stereo8Wav = Inr frames)"
proof -
  have h: "readHeader exampleLib stereo8Wav
     = Inr (Some \<lparr>dataOffset = 44, dataLen = 2, channels = 2, sampleRate = 44100,
                   bitsPerSample = 8\<rparr>)"
    by (simp add: exampleLib_def readHeader_stereo8Wav)
  show ?thesis
    using h exampleLib_neverThrows convertToMp3_ignores_format [OF h] by blast
qed

text \<open>
  A buffer whose header declares two channels and 8-bit samples is parsed and encoded, not
  rejected: all 46 bytes of it, header included, go to the encoder as samples.
\<close>

theorem stereo_8bit_not_rejected:
  "specReadHeader stereo8Wav
     = Inr (Some \<lparr>dataOffset = 44, dataLen = 2, channels = 2, sampleRate = 44100,
                   bitsPerSample = 8\<rparr>) \<and>
   convertToMp3 exampleLib stereo8Wav = Inr [replicate 46 0]"
  by (simp add: readHeader_stereo8Wav convertToMp3_exampleLib[OF readHeader_stereo8Wav]
      length_stereo8Wav) (simp add: stereo8Wav_def)

text \<open>
  Claim C5, as the code has it. When no bytes were captured, \<open>onstop\<close> clears the chunk
  sequence and passes an empty buffer to \<open>convertToMp3\<close>, which has no check for it: an
  exception of the header parser propagates, a missing header object is a TypeError at
  \<open>wav.dataOffset\<close>, and only when the parser returns a header for the empty buffer is the
  result the flush output alone (the empty sequence when \<open>flush\<close> yields no bytes), unless
  creating or flushing the encoder throws.
\<close>

theorem onstop_without_chunks:
  assumes "concat (audioChunks s) = []"
  shows "audioChunks (fst (onstop lib (stopRecording s))) = [] \<and>
         snd (onstop lib (stopRecording s)) = convertToMp3 lib [] \<and>
         convertToMp3 lib [] =
           (case readHeader lib [] of
              Inl e \<Rightarrow> Inl e
            | Inr None \<Rightarrow> Inl TypeError
            | Inr (Some wav) \<Rightarrow>
                (case Mp3Encoder lib 1 (sampleRate wav) 128 of
                   Inl e \<Rightarrow> Inl e
                 | Inr enc \<Rightarrow>
                     (case flush lib enc of
                        Inl e \<Rightarrow> Inl e
                      | Inr mp3buf \<Rightarrow> Inr (if mp3buf = [] then [] else [mp3buf]))))"
proof -
  have c: "concat (audioChunks (stopRecording s)) = []"
    using assms by (simp add: stopRecording_def split: option.splits)
  have a: "audioChunks (fst (onstop lib (stopRecording s))) = []"
    by (simp add: onstop_def Let_def split: sum.splits)
  have b: "snd (onstop lib (stopRecording s)) = convertToMp3 lib []"
    unfolding onstop_def Let_def c by (simp split: sum.splits)
  have l: "encodeLoop (encodeBuffer lib) [] 0 enc [] = Inr (enc, [])" for enc
    by (subst encodeLoop.simps) simp
  have d: "convertToMp3 lib [] =
           (case readHeader lib [] of
              Inl e \<Rightarrow> Inl e
            | Inr None \<Rightarrow> Inl TypeError
            | Inr (Some wav) \<Rightarrow>
                (case Mp3Encoder lib 1 (sampleRate wav) 128 of
                   Inl e \<Rightarrow> Inl e
                 | Inr enc \<Rightarrow>
                     (case flush lib enc of
                        Inl e \<Rightarrow> Inl e
                      | Inr mp3buf \<Rightarrow> Inr (if mp3buf = [] then [] else [mp3buf]))))"
    by (auto simp: convertToMp3_def Int16Array_def l split: sum.splits option.splits)
  from a b d show ?thesis by blast
qed

theorem onstop_without_chunks_witness:
  "concat (audioChunks (ondataavailable [] (fst (startRecording mounted)))) = [] \<and>
   audioChunks (ondataavailable [] (fst (startRecording mounted))) = [[]] \<and>
   audioChunks (fst (onstop exampleLib
       (stopRecording (ondataavailable [] (fst (startRecording mounted)))))) = [] \<and>
   snd (onstop exampleLib
       (stopRecording (ondataavailable [] (fst (startRecording mounted)))))
     = Inl LibraryError"
proof -
  have a: "audioChunks (ondataavailable [] (fst (startRecording mounted))) = [[]]"
    by (simp add: ondataavailable_def startRecording_def initializeAudioContext_def mounted_def)
  have c: "concat (audioChunks (ondataavailable [] (fst (startRecording mounted)))) = []"
    by (simp add: a)
  note t = onstop_without_chunks [OF c, of exampleLib]
  from t a show ?thesis by (simp add: exampleLib_def specReadHeader_def)
qed

text \<open>
  With a header parser that fails on an empty buffer, stopping a recording that has
  received no chunk ends in that exception instead of an empty result.
\<close>

theorem stop_without_chunks_raises:
  "audioChunks (fst (startRecording mounted)) = [] \<and>
   capturing (fst (startRecording mounted)) \<and>
   snd (onstop exampleLib (stopRecording (fst (startRecording mounted)))) = Inl LibraryError"
  by (simp add: onstop_def stopRecording_def startRecording_def initializeAudioContext_def
      capturing_def convertToMp3_def exampleLib_def specReadHeader_def mounted_def)

end
